theory Spec2Isabelle
  imports Main "HOL-Library.Word"
begin

section \<open>RSAES-PKCS1-v1_5 (\<^verbatim>\<open>lib/Crypto/Cipher/PKCS1_v1_5.py\<close>)\<close>

text \<open>
  Python 2 byte strings are lists of 8-bit words.  The two operations of the module,
  \<^verbatim>\<open>encrypt\<close> and \<^verbatim>\<open>decrypt\<close>, are embedded below together with the helpers of
  \<^verbatim>\<open>Crypto.Util.number\<close> and the key object they call.
\<close>

type_synonym byte = "8 word"

subsection \<open>Helpers of \<^verbatim>\<open>Crypto.Util.number\<close> and the key object\<close>

text \<open>
  Modelled from the spec: \<^verbatim>\<open>Crypto.Util.number.size\<close>, which is not part of the
  module; the spec calls its result the modulus bit-length.
\<close>

fun size_bits :: "nat \<Rightarrow> nat" where
  "size_bits N = (if N = 0 then 0 else Suc (size_bits (N div 2)))"

declare size_bits.simps [simp del]

text \<open>
  Modelled from the spec: \<^verbatim>\<open>Crypto.Util.number.ceil_div\<close>, not part of the module;
  the spec has \<open>k = ceil(modulusBits / 8)\<close>.
\<close>

definition ceil_div :: "nat \<Rightarrow> nat \<Rightarrow> nat" where
  "ceil_div a b = (let r = a div b in if a mod b \<noteq> 0 then r + 1 else r)"

text \<open>
  Modelled from the spec: the conversions between byte strings and integers that the key
  object applies around its transforms (\<^verbatim>\<open>bytes_to_long\<close>, \<^verbatim>\<open>long_to_bytes\<close>), not part
  of the module.  The spec reads a block as a big-endian unsigned integer and writes the
  result of a transform big-endian; the key object returns the shortest such byte string.
  The spec does not say how zero is written: one 0x00 byte is taken here, which after
  the left-padding to \<open>k \<ge> 1\<close> bytes gives the same block as the empty string would.
\<close>

definition bytes_to_long :: "byte list \<Rightarrow> nat" where
  "bytes_to_long bs = foldl (\<lambda>acc b. acc * 256 + unat b) 0 bs"

fun le_bytes :: "nat \<Rightarrow> byte list" where
  "le_bytes x = (if x = 0 then [] else word_of_nat (x mod 256) # le_bytes (x div 256))"

declare le_bytes.simps [simp del]

definition long_to_bytes :: "nat \<Rightarrow> byte list" where
  "long_to_bytes x = (if x = 0 then [0] else rev (le_bytes x))"

text \<open>
  The key object: its modulus \<^verbatim>\<open>key.n\<close>, the public transform on integers, and the
  private transform, present only when the key holds its private half.  Both transforms
  are parameters: the module never looks inside them.
\<close>

record rsa_key =
  key_n :: nat
  public_transform :: "nat \<Rightarrow> nat"
  private_transform :: "(nat \<Rightarrow> nat) option"

text \<open>
  The errors of the module: both \<^verbatim>\<open>ValueError\<close>s (``Plaintext is too long.'' and
  ``Ciphertext with incorrect length.'') and the \<^verbatim>\<open>TypeError\<close> that
  \<^verbatim>\<open>key.decrypt\<close> raises on a key without private half.
\<close>

datatype error = MessageTooLong | InvalidCiphertextLength | NoPrivateKey

text \<open>\<^verbatim>\<open>key.encrypt(em, 0)[0]\<close>: bytes to integer, public transform, integer to bytes.\<close>

definition key_encrypt :: "rsa_key \<Rightarrow> byte list \<Rightarrow> byte list" where
  "key_encrypt key em = long_to_bytes (public_transform key (bytes_to_long em))"

text \<open>\<^verbatim>\<open>key.decrypt(ct)\<close>: raises when the key has no private half.\<close>

definition key_decrypt :: "rsa_key \<Rightarrow> byte list \<Rightarrow> error + byte list" where
  "key_decrypt key ct =
     (case private_transform key of
        None \<Rightarrow> Inl NoPrivateKey
      | Some f \<Rightarrow> Inr (long_to_bytes (f (bytes_to_long ct))))"

text \<open>The modulus size in bytes, as both operations compute it (lines 96-97, 171-172).\<close>

definition modulus_bytes :: "rsa_key \<Rightarrow> nat" where
  "modulus_bytes key = (let modBits = size_bits (key_n key) in ceil_div modBits 8)"

subsection \<open>The random source\<close>

text \<open>
  \<^verbatim>\<open>randFunc\<close> is a callable with hidden state: it takes the number of bytes wanted and
  returns a byte string.  The state is passed explicitly.
\<close>

type_synonym 's rand_func = "'s \<Rightarrow> nat \<Rightarrow> byte list \<times> 's"

text \<open>
  \<^verbatim>\<open>nonZeroRandByte.__call__\<close> (lines 106-108): while the string \<open>c\<close> is the single
  byte 0x00, draw one more byte.  The loop need not end, so not returning is \<open>None\<close>.
\<close>

partial_function (option) nonZeroRandByte ::
  "'s rand_func \<Rightarrow> byte list \<Rightarrow> 's \<Rightarrow> (byte list \<times> 's) option" where
  "nonZeroRandByte rf c s =
     (if c = [0] then nonZeroRandByte rf (fst (rf s 1)) (snd (rf s 1)) else Some (c, s))"

text \<open>
  \<^verbatim>\<open>map(nonZeroRandByte(randFunc), initial)\<close> (line 109): Python 2's \<^verbatim>\<open>map\<close> calls
  the object on each one-byte string of \<open>initial\<close>, from left to right.
\<close>

fun map_nonZeroRandByte ::
  "'s rand_func \<Rightarrow> byte list \<Rightarrow> 's \<Rightarrow> (byte list list \<times> 's) option" where
  "map_nonZeroRandByte rf [] s = Some ([], s)"
| "map_nonZeroRandByte rf (c # cs) s =
     (case nonZeroRandByte rf [c] s of
        None \<Rightarrow> None
      | Some (c', s') \<Rightarrow>
          (case map_nonZeroRandByte rf cs s' of
             None \<Rightarrow> None
           | Some (r, s'') \<Rightarrow> Some (c' # r, s'')))"

subsection \<open>\<^verbatim>\<open>encrypt\<close>\<close>

text \<open>
  Steps 2a and 2b (lines 104-111): the argument \<^verbatim>\<open>randFunc(k-mLen-3)\<close> is drawn first,
  then every byte of it goes through \<^verbatim>\<open>nonZeroRandByte\<close>; the results are joined
  into \<open>ps\<close> and the block \<open>em\<close> is assembled.
\<close>

definition pkcs1_pad ::
  "byte list \<Rightarrow> nat \<Rightarrow> 's rand_func \<Rightarrow> 's \<Rightarrow> (byte list \<times> 's) option" where
  "pkcs1_pad message k randFunc s =
     (let mLen = length message;
          (initial, s0) = randFunc s (k - mLen - 3) in
      case map_nonZeroRandByte randFunc initial s0 of
        None \<Rightarrow> None
      | Some (cs, s1) \<Rightarrow>
          let ps = concat cs;
              em = [0, 2] @ ps @ [0] @ message
          in Some (em, s1))"

text \<open>
  \<^verbatim>\<open>encrypt(message, key, randFunc)\<close> (lines 96-116).  The result is \<open>None\<close> when the
  padding loop does not end, otherwise the error raised or the ciphertext returned,
  with the state the random source is left in.
\<close>

definition encrypt ::
  "byte list \<Rightarrow> rsa_key \<Rightarrow> 's rand_func \<Rightarrow> 's \<Rightarrow> ((error + byte list) \<times> 's) option" where
  "encrypt message key randFunc s =
     (let k = modulus_bytes key;
          mLen = length message in
      if int mLen > int k - 11 then Some (Inl MessageTooLong, s)
      else
        case pkcs1_pad message k randFunc s of
          None \<Rightarrow> None
        | Some (em, s1) \<Rightarrow>
            let m = key_encrypt key em;
                c = replicate (k - length m) 0 @ m
            in Some (Inr c, s1))"

subsection \<open>\<^verbatim>\<open>decrypt\<close>\<close>

text \<open>
  \<^verbatim>\<open>em.find('\x00', start)\<close> for a one-byte needle: the lowest index from \<open>start\<close> on
  that holds the byte, and -1 when there is none.
\<close>

function py_find :: "byte list \<Rightarrow> byte \<Rightarrow> nat \<Rightarrow> int" where
  "py_find em c i =
     (if i \<ge> length em then -1
      else if em ! i = c then int i
      else py_find em c (Suc i))"
  by pat_completeness auto
termination
  by (relation "measure (\<lambda>(em, c, i). length em - i)") auto

declare py_find.simps [simp del]

text \<open>\<^verbatim>\<open>em.startswith(p)\<close>.\<close>

definition py_startswith :: "byte list \<Rightarrow> byte list \<Rightarrow> bool" where
  "py_startswith em p = (take (length p) em = p)"

text \<open>
  Step 2c (lines 178-180): the private transform's bytes, left-padded with 0x00 up to
  \<open>k\<close> bytes.  A negative repeat count gives the empty string, as natural subtraction does.
\<close>

definition decrypt_block :: "rsa_key \<Rightarrow> byte list \<Rightarrow> error + byte list" where
  "decrypt_block key ct =
     (let k = modulus_bytes key in
      case key_decrypt key ct of
        Inl e \<Rightarrow> Inl e
      | Inr m \<Rightarrow> Inr (replicate (k - length m) 0 @ m))"

text \<open>\<^verbatim>\<open>decrypt(ct, key, sentinel)\<close> (lines 171-186).\<close>

definition decrypt :: "byte list \<Rightarrow> rsa_key \<Rightarrow> byte list \<Rightarrow> error + byte list" where
  "decrypt ct key sentinel =
     (let k = modulus_bytes key in
      if length ct \<noteq> k then Inl InvalidCiphertextLength
      else
        case decrypt_block key ct of
          Inl e \<Rightarrow> Inl e
        | Inr em \<Rightarrow>
            let sep = py_find em 0 2 in
            if \<not> py_startswith em [0, 2] \<or> sep < 10 then Inr sentinel
            else Inr (drop (nat (sep + 1)) em))"


subsection \<open>The random source's contract\<close>

text \<open>
  \<open>redraw_ends rf s n\<close>: starting in state \<open>s\<close>, one of the next \<open>n\<close> single-byte draws
  returns something other than the string 0x00, which is what ends the loop of
  \<^verbatim>\<open>nonZeroRandByte\<close>.
\<close>

fun redraw_ends :: "'s rand_func \<Rightarrow> 's \<Rightarrow> nat \<Rightarrow> bool" where
  "redraw_ends rf s 0 = False"
| "redraw_ends rf s (Suc n) = (fst (rf s 1) \<noteq> [0] \<or> redraw_ends rf (snd (rf s 1)) n)"

text \<open>
  The contract of the random source: \<^verbatim>\<open>draw(n)\<close> returns \<open>n\<close> bytes, and it never
  returns 0x00 forever.
\<close>

definition rng_contract :: "'s rand_func \<Rightarrow> bool" where
  "rng_contract rf \<longleftrightarrow>
     (\<forall>s n. length (fst (rf s n)) = n) \<and> (\<forall>s. \<exists>n. redraw_ends rf s n)"

subsection \<open>The structural validation, as the specification words it\<close>

text \<open>
  The index of the first 0x00 byte at or after index 2, if there is one.
\<close>

definition separator_index :: "byte list \<Rightarrow> nat option" where
  "separator_index em = List.find (\<lambda>i. em ! i = 0) [2..<length em]"

text \<open>
  Validation fails when the first two bytes are not 0x00 0x02, or no 0x00 byte is found
  from index 2 on, or the first one is at an index below 10.
\<close>

definition structurally_invalid :: "byte list \<Rightarrow> bool" where
  "structurally_invalid em =
     (take 2 em \<noteq> [0, 2] \<or>
      (case separator_index em of None \<Rightarrow> True | Some sep \<Rightarrow> sep < 10))"

subsection \<open>Concrete inputs\<close>

text \<open>
  A key of 104 bits (\<open>k = 13\<close>) with modulus \<open>2^104 - 1\<close>.  Its public transform doubles
  modulo the modulus and its private transform multiplies by \<open>2^103\<close>, the inverse of 2.
\<close>

definition example_key :: rsa_key where
  "example_key =
     \<lparr>key_n = 20282409603651670423947251286015,
      public_transform = (\<lambda>x. (2 * x) mod 20282409603651670423947251286015),
      private_transform =
        Some (\<lambda>y. (10141204801825835211973625643008 * y) mod 20282409603651670423947251286015)\<rparr>"

text \<open>The same key without its private half.\<close>

definition public_only_key :: rsa_key where
  "public_only_key = example_key\<lparr>private_transform := None\<rparr>"

text \<open>
  A random source whose state is the list of bytes it will return next; once the list is
  used up it returns 0x01 bytes.
\<close>

definition queue_rng :: "byte list rand_func" where
  "queue_rng s n = (take n (s @ replicate n 1), drop n s)"

section \<open>Properties\<close>

subsection \<open>Bit length and byte length of the modulus\<close>

lemma size_bits_upper: "N < 2 ^ size_bits N"
proof (induction N rule: size_bits.induct)
  case (1 N)
  show ?case
  proof (cases "N = 0")
    case True then show ?thesis by (simp add: size_bits.simps)
  next
    case False
    with 1 have "N div 2 < 2 ^ size_bits (N div 2)" by simp
    then have "N < 2 * 2 ^ size_bits (N div 2)" by linarith
    with False show ?thesis by (subst size_bits.simps) simp
  qed
qed

lemma size_bits_lower: "0 < N \<Longrightarrow> 2 ^ (size_bits N - 1) \<le> N"
proof (induction N rule: size_bits.induct)
  case (1 N)
  show ?case
  proof (cases "N div 2 = 0")
    case True
    with 1(2) have "size_bits N = 1" by (simp add: size_bits.simps[of N] size_bits.simps[of 0])
    with 1(2) show ?thesis by simp
  next
    case False
    with 1 have ih: "2 ^ (size_bits (N div 2) - 1) \<le> N div 2" by simp
    from False have pos: "0 < size_bits (N div 2)" by (subst size_bits.simps) simp
    have "size_bits N = Suc (size_bits (N div 2))" using 1(2) by (subst size_bits.simps) simp
    then have "(2::nat) ^ (size_bits N - 1) = 2 * 2 ^ (size_bits (N div 2) - 1)"
      using pos by (cases "size_bits (N div 2)") simp_all
    with ih show ?thesis by linarith
  qed
qed

lemma ceil_div_8_upper: "m \<le> 8 * ceil_div m 8"
  unfolding ceil_div_def Let_def by (simp; presburger)

lemma ceil_div_8_lower: "0 < m \<Longrightarrow> 8 * (ceil_div m 8 - 1) < m"
  unfolding ceil_div_def Let_def by (simp; presburger)

lemma modulus_lt_pow: "key_n key < 256 ^ modulus_bytes key"
proof -
  let ?b = "size_bits (key_n key)"
  have "key_n key < 2 ^ ?b" by (rule size_bits_upper)
  also have "(2::nat) ^ ?b \<le> 2 ^ (8 * ceil_div ?b 8)"
    by (rule power_increasing) (simp_all add: ceil_div_8_upper)
  also have "\<dots> = 256 ^ ceil_div ?b 8" by (simp add: power_mult)
  finally show ?thesis by (simp add: modulus_bytes_def)
qed

lemma modulus_ge_pow: assumes "0 < key_n key" shows "256 ^ (modulus_bytes key - 1) \<le> key_n key"
proof -
  let ?b = "size_bits (key_n key)"
  have pos: "0 < ?b" using assms by (subst size_bits.simps) simp
  have "8 * (ceil_div ?b 8 - 1) \<le> ?b - 1" using ceil_div_8_lower[OF pos] by simp
  then have "(2::nat) ^ (8 * (ceil_div ?b 8 - 1)) \<le> 2 ^ (?b - 1)"
    by (intro power_increasing) simp_all
  also have "\<dots> \<le> key_n key" by (rule size_bits_lower[OF assms])
  finally show ?thesis by (simp add: modulus_bytes_def power_mult)
qed

subsection \<open>Byte strings and integers\<close>

lemma bytes_to_long_Nil: "bytes_to_long [] = 0"
  by (simp add: bytes_to_long_def)

lemma bytes_to_long_snoc: "bytes_to_long (bs @ [b]) = bytes_to_long bs * 256 + unat b"
  by (simp add: bytes_to_long_def)

lemma bytes_to_long_append:
  "bytes_to_long (as @ bs) = bytes_to_long as * 256 ^ length bs + bytes_to_long bs"
proof (induction bs rule: rev_induct)
  case Nil
  show ?case by (simp add: bytes_to_long_Nil)
next
  case (snoc b bs)
  have "bytes_to_long (as @ bs @ [b]) = bytes_to_long ((as @ bs) @ [b])" by simp
  also have "\<dots> = bytes_to_long (as @ bs) * 256 + unat b" by (rule bytes_to_long_snoc)
  finally show ?case by (simp add: snoc.IH bytes_to_long_snoc algebra_simps)
qed

lemma bytes_to_long_single: "bytes_to_long [b] = unat b"
  by (simp add: bytes_to_long_def)

lemma bytes_to_long_Cons:
  "bytes_to_long (b # bs) = unat b * 256 ^ length bs + bytes_to_long bs"
  using bytes_to_long_append[of "[b]" bs] by (simp add: bytes_to_long_single)

lemma unat_byte_lt: "unat (b :: byte) < 256"
  using unsigned_less[of b, where 'a = nat] by simp

lemma bytes_to_long_bound: "bytes_to_long bs < 256 ^ length bs"
proof (induction bs rule: rev_induct)
  case Nil
  show ?case by (simp add: bytes_to_long_Nil)
next
  case (snoc b bs)
  have "bytes_to_long bs * 256 + unat b < (bytes_to_long bs + 1) * 256"
    using unat_byte_lt[of b] by simp
  also have "\<dots> \<le> 256 ^ length bs * 256"
    using snoc.IH by (intro mult_right_mono) simp_all
  finally show ?case by (simp add: bytes_to_long_snoc)
qed

lemma bytes_to_long_zeros: "bytes_to_long (replicate j 0 @ bs) = bytes_to_long bs"
proof -
  have "bytes_to_long (replicate j (0::byte)) = 0"
    by (induction j) (simp_all add: bytes_to_long_Nil bytes_to_long_Cons)
  then show ?thesis by (simp add: bytes_to_long_append)
qed

lemma bytes_to_long_inject:
  "length as = length bs \<Longrightarrow> bytes_to_long as = bytes_to_long bs \<Longrightarrow> as = bs"
proof (induction as bs rule: list_induct2)
  case Nil
  show ?case by simp
next
  case (Cons a as b bs)
  let ?p = "(256::nat) ^ length bs"
  from Cons.prems Cons.hyps
  have eq: "unat a * ?p + bytes_to_long as = unat b * ?p + bytes_to_long bs"
    by (simp add: bytes_to_long_Cons)
  have la: "bytes_to_long as < ?p" using bytes_to_long_bound[of as] Cons.hyps by simp
  have lb: "bytes_to_long bs < ?p" by (rule bytes_to_long_bound)
  from eq have "(unat a * ?p + bytes_to_long as) div ?p = (unat b * ?p + bytes_to_long bs) div ?p"
    by simp
  with la lb have "unat a = unat b" by simp
  then have "a = b" by (rule word_unat_eq_iff[THEN iffD2])
  moreover from eq \<open>unat a = unat b\<close> have "bytes_to_long as = bytes_to_long bs" by simp
  ultimately show ?case using Cons.IH by simp
qed

lemma bytes_to_long_le_bytes: "bytes_to_long (rev (le_bytes x)) = x"
proof (induction x rule: le_bytes.induct)
  case (1 x)
  show ?case
  proof (cases "x = 0")
    case True
    then show ?thesis by (simp add: le_bytes.simps bytes_to_long_Nil)
  next
    case False
    have u: "unat (word_of_nat (x mod 256) :: byte) = x mod 256"
      by (simp add: unat_of_nat)
    from False have "rev (le_bytes x) = rev (le_bytes (x div 256)) @ [word_of_nat (x mod 256)]"
      by (subst le_bytes.simps) simp
    with 1 False u show ?thesis by (simp add: bytes_to_long_snoc)
  qed
qed

lemma bytes_to_long_long_to_bytes: "bytes_to_long (long_to_bytes x) = x"
  by (simp add: long_to_bytes_def bytes_to_long_le_bytes bytes_to_long_single)

lemma length_le_bytes: "x < 256 ^ k \<Longrightarrow> length (le_bytes x) \<le> k"
proof (induction x arbitrary: k rule: le_bytes.induct)
  case (1 x)
  show ?case
  proof (cases "x = 0")
    case True
    then show ?thesis by (simp add: le_bytes.simps)
  next
    case False
    with 1(2) obtain j where k: "k = Suc j" by (cases k) auto
    with 1(2) have "x div 256 < 256 ^ j"
      by (simp add: less_mult_imp_div_less mult.commute)
    with 1(1) False have "length (le_bytes (x div 256)) \<le> j" by simp
    with False k show ?thesis by (subst le_bytes.simps) simp
  qed
qed

lemma length_long_to_bytes: "x < 256 ^ k \<Longrightarrow> 0 < k \<Longrightarrow> length (long_to_bytes x) \<le> k"
  by (auto simp: long_to_bytes_def length_le_bytes)

lemma padded_length:
  "x < 256 ^ k \<Longrightarrow> 0 < k \<Longrightarrow>
     length (replicate (k - length (long_to_bytes x)) (0::byte) @ long_to_bytes x) = k"
  using length_long_to_bytes[of x k] by simp

lemma padded_value:
  "bytes_to_long (replicate (k - length (long_to_bytes x)) 0 @ long_to_bytes x) = x"
  by (simp add: bytes_to_long_zeros bytes_to_long_long_to_bytes)

lemma padded_bytes_to_long:
  assumes "bs \<noteq> []"
  shows "replicate (length bs - length (long_to_bytes (bytes_to_long bs))) 0
           @ long_to_bytes (bytes_to_long bs) = bs"
proof (rule bytes_to_long_inject)
  from assms have "0 < length bs" by simp
  then show "length (replicate (length bs - length (long_to_bytes (bytes_to_long bs))) (0::byte)
           @ long_to_bytes (bytes_to_long bs)) = length bs"
    by (rule padded_length[OF bytes_to_long_bound])
  show "bytes_to_long (replicate (length bs - length (long_to_bytes (bytes_to_long bs))) 0
           @ long_to_bytes (bytes_to_long bs)) = bytes_to_long bs"
    by (rule padded_value)
qed

subsection \<open>Evaluation rules for \<^verbatim>\<open>find\<close>, the bit length and the byte encoding\<close>

lemma py_find_eq:
  "py_find em c i =
     (case List.find (\<lambda>j. em ! j = c) [i..<length em] of None \<Rightarrow> -1 | Some p \<Rightarrow> int p)"
proof (induction em c i rule: py_find.induct)
  case (1 em c i)
  show ?case
  proof (cases "i \<ge> length em")
    case True
    then show ?thesis by (subst py_find.simps) simp
  next
    case False
    then have "[i..<length em] = i # [Suc i..<length em]" by (simp add: upt_conv_Cons)
    with False 1 show ?thesis by (subst py_find.simps) simp
  qed
qed

lemma size_bits_unique:
  assumes "0 < b" "2 ^ (b - 1) \<le> N" "N < 2 ^ b"
  shows "size_bits N = b"
proof -
  from assms have pos: "0 < N" by (metis less_le_trans zero_less_numeral zero_less_power)
  have "\<not> size_bits N < b"
  proof
    assume "size_bits N < b"
    then have "(2::nat) ^ size_bits N \<le> 2 ^ (b - 1)" by (intro power_increasing) simp_all
    with size_bits_upper[of N] assms(2) show False by linarith
  qed
  moreover have "\<not> b < size_bits N"
  proof
    assume "b < size_bits N"
    then have "(2::nat) ^ b \<le> 2 ^ (size_bits N - 1)" by (intro power_increasing) simp_all
    with size_bits_lower[OF pos] assms(3) show False by linarith
  qed
  ultimately show ?thesis by simp
qed

lemma le_bytes_0: "le_bytes 0 = []"
  by (simp add: le_bytes.simps)

lemma le_bytes_numeral:
  "le_bytes (numeral w) = word_of_nat (numeral w mod 256) # le_bytes (numeral w div 256)"
  by (subst le_bytes.simps) simp


subsection \<open>\<^verbatim>\<open>decrypt\<close>: the search for the separator\<close>

lemma separator_index_Some_iff:
  "separator_index em = Some sep \<longleftrightarrow>
     2 \<le> sep \<and> sep < length em \<and> em ! sep = 0 \<and> (\<forall>j. 2 \<le> j \<and> j < sep \<longrightarrow> em ! j \<noteq> 0)"
proof
  assume "separator_index em = Some sep"
  then obtain i where i: "i < length [2..<length em]" "em ! ([2..<length em] ! i) = 0"
      "sep = [2..<length em] ! i" "\<forall>j<i. em ! ([2..<length em] ! j) \<noteq> 0"
    by (auto simp: separator_index_def find_Some_iff)
  from i(1,3) have sep: "sep = 2 + i" "sep < length em" by auto
  have "em ! j \<noteq> 0" if "2 \<le> j" "j < sep" for j
  proof -
    from that sep have "j - 2 < i" "[2..<length em] ! (j - 2) = j" by auto
    with i(4) show ?thesis by metis
  qed
  with i(2,3) sep show "2 \<le> sep \<and> sep < length em \<and> em ! sep = 0 \<and>
      (\<forall>j. 2 \<le> j \<and> j < sep \<longrightarrow> em ! j \<noteq> 0)" by auto
next
  assume a: "2 \<le> sep \<and> sep < length em \<and> em ! sep = 0 \<and>
      (\<forall>j. 2 \<le> j \<and> j < sep \<longrightarrow> em ! j \<noteq> 0)"
  then have "sep - 2 < length [2..<length em]" "[2..<length em] ! (sep - 2) = sep" by auto
  moreover have "\<forall>j. j < sep - 2 \<longrightarrow> \<not> em ! ([2..<length em] ! j) = 0" using a by auto
  ultimately show "separator_index em = Some sep"
    unfolding separator_index_def find_Some_iff using a by metis
qed

lemma separator_index_None_iff:
  "separator_index em = None \<longleftrightarrow> (\<forall>j. 2 \<le> j \<and> j < length em \<longrightarrow> em ! j \<noteq> 0)"
  by (auto simp: separator_index_def find_None_iff)

lemma py_find_separator:
  "py_find em 0 2 = (case separator_index em of None \<Rightarrow> -1 | Some sep \<Rightarrow> int sep)"
  by (simp add: py_find_eq separator_index_def)

lemma py_startswith_prefix: "py_startswith em [0, 2] \<longleftrightarrow> take 2 em = [0, 2]"
  by (simp add: py_startswith_def numeral_2_eq_2)

text \<open>
  What \<^verbatim>\<open>decrypt\<close> returns once the length check has passed and the key has produced
  the block \<open>em\<close>.
\<close>

lemma decrypt_of_block:
  assumes "length ct = modulus_bytes key" and "decrypt_block key ct = Inr em"
  shows "decrypt ct key sentinel =
           Inr (if structurally_invalid em then sentinel
                else case separator_index em of
                       None \<Rightarrow> sentinel
                     | Some sep \<Rightarrow> drop (Suc sep) em)"
  using assms
  by (auto simp: decrypt_def structurally_invalid_def py_startswith_prefix py_find_separator
        nat_add_distrib split: option.splits)

lemma valid_block_separator:
  "\<not> structurally_invalid em \<Longrightarrow> \<exists>sep. separator_index em = Some sep \<and> 10 \<le> sep"
  by (auto simp: structurally_invalid_def split: option.splits)

subsection \<open>The concrete keys\<close>

lemma example_key_bytes: "modulus_bytes example_key = 13"
proof -
  have "size_bits 20282409603651670423947251286015 = 104"
    by (rule size_bits_unique) simp_all
  then show ?thesis by (simp add: modulus_bytes_def example_key_def ceil_div_def)
qed

lemma example_key_private:
  "private_transform example_key =
     Some (\<lambda>y. (10141204801825835211973625643008 * y) mod 20282409603651670423947251286015)"
  by (simp add: example_key_def)

lemma public_only_key_bytes: "modulus_bytes public_only_key = 13"
  using example_key_bytes by (simp add: modulus_bytes_def public_only_key_def)

lemma public_only_key_private: "private_transform public_only_key = None"
  by (simp add: public_only_key_def)

lemma example_block:
  "decrypt_block example_key [0, 4, 2, 4, 6, 8, 10, 12, 14, 16, 0, 130, 0]
     = Inr [0, 2, 1, 2, 3, 4, 5, 6, 7, 8, 0, 0x41, 0]"
  by (simp add: decrypt_block_def example_key_bytes key_decrypt_def example_key_private
        bytes_to_long_def long_to_bytes_def le_bytes_0 le_bytes_numeral)

lemma example_block_short:
  "decrypt_block example_key [0, 0, 0, 0, 0, 0, 0, 0, 0, 0, 0, 0, 6]
     = Inr [0, 0, 0, 0, 0, 0, 0, 0, 0, 0, 0, 0, 3]"
proof -
  have "replicate 12 (0::byte) = [0, 0, 0, 0, 0, 0, 0, 0, 0, 0, 0, 0]"
    by (simp add: eval_nat_numeral)
  then show ?thesis
    by (simp add: decrypt_block_def example_key_bytes key_decrypt_def example_key_private
        bytes_to_long_def long_to_bytes_def le_bytes_0 le_bytes_numeral)
qed

lemma example_block_malformed:
  "decrypt_block example_key [0, 6, 2, 4, 6, 8, 10, 12, 14, 16, 0, 130, 0]
     = Inr [0, 3, 1, 2, 3, 4, 5, 6, 7, 8, 0, 0x41, 0]"
  by (simp add: decrypt_block_def example_key_bytes key_decrypt_def example_key_private
        bytes_to_long_def long_to_bytes_def le_bytes_0 le_bytes_numeral)

subsection \<open>\<^verbatim>\<open>decrypt\<close>: errors\<close>

text \<open>
  Claim C6.  \<^verbatim>\<open>decrypt\<close> fails with the length error exactly when the ciphertext is
  not \<open>k\<close> bytes long, for every key and sentinel; in particular a ciphertext of \<open>k - 1\<close>
  bytes gives the error, which is not a return of the sentinel.
\<close>

theorem decrypt_invalid_length_iff:
  "(decrypt ct key sentinel = Inl InvalidCiphertextLength \<longleftrightarrow> length ct \<noteq> modulus_bytes key)
   \<and> (Suc (length ct) = modulus_bytes key \<longrightarrow>
        decrypt ct key sentinel = Inl InvalidCiphertextLength
        \<and> decrypt ct key sentinel \<noteq> Inr sentinel)"
  by (auto simp: decrypt_def decrypt_block_def key_decrypt_def Let_def
        split: option.splits sum.splits)

theorem decrypt_invalid_length_iff_witness:
  "Suc (length (replicate 12 (0::byte))) = modulus_bytes example_key
   \<and> decrypt (replicate 12 0) example_key [7] = Inl InvalidCiphertextLength
   \<and> decrypt (replicate 12 0) example_key [7] \<noteq> Inr [7]"
  using decrypt_invalid_length_iff[of "replicate 12 0" example_key "[7]"]
  by (simp add: example_key_bytes)

text \<open>
  Claim C10.  The length check comes before the private transform: a ciphertext of the
  wrong length gives the length error whatever the key holds, so the error for a missing
  private half only arises for ciphertexts of exactly \<open>k\<close> bytes (and only from a key
  without private half).
\<close>

theorem decrypt_length_check_first:
  "(length ct \<noteq> modulus_bytes key \<longrightarrow> decrypt ct key sentinel = Inl InvalidCiphertextLength)
   \<and> (decrypt ct key sentinel = Inl NoPrivateKey \<longrightarrow>
        length ct = modulus_bytes key \<and> private_transform key = None)"
  by (auto simp: decrypt_def decrypt_block_def key_decrypt_def Let_def
        split: option.splits if_splits)

theorem decrypt_length_check_first_witness:
  "private_transform public_only_key = None
   \<and> length ([] :: byte list) \<noteq> modulus_bytes public_only_key
   \<and> decrypt [] public_only_key [7] = Inl InvalidCiphertextLength"
  using decrypt_length_check_first[of "[]" public_only_key "[7]"]
  by (simp add: public_only_key_bytes public_only_key_private)

text \<open>
  Claim C8, as stated, fails: with a key that has no private half and a ciphertext of
  the wrong length (here the empty one), \<^verbatim>\<open>decrypt\<close> raises the length error, not the
  error for the missing private half.
\<close>

theorem decrypt_no_private_key_counterexample:
  "private_transform public_only_key = None
   \<and> decrypt [] public_only_key [7] \<noteq> Inl NoPrivateKey"
  by (simp add: decrypt_def public_only_key_bytes public_only_key_private)

text \<open>
  Claim C8, amended.  With a key that has no private half and a ciphertext of exactly \<open>k\<close>
  bytes, \<^verbatim>\<open>decrypt\<close> fails with the error for the missing private half, which is
  neither a return of the sentinel nor the length error.
\<close>

theorem decrypt_no_private_key:
  assumes "private_transform key = None" and "length ct = modulus_bytes key"
  shows "decrypt ct key sentinel = Inl NoPrivateKey
         \<and> decrypt ct key sentinel \<noteq> Inr sentinel
         \<and> decrypt ct key sentinel \<noteq> Inl InvalidCiphertextLength"
  using assms by (simp add: decrypt_def decrypt_block_def key_decrypt_def)

theorem decrypt_no_private_key_witness:
  "private_transform public_only_key = None
   \<and> length (replicate 13 (0::byte)) = modulus_bytes public_only_key
   \<and> decrypt (replicate 13 0) public_only_key [7] = Inl NoPrivateKey"
  using decrypt_no_private_key[of public_only_key "replicate 13 0" "[7]"]
  by (simp add: public_only_key_bytes public_only_key_private)

subsection \<open>\<^verbatim>\<open>decrypt\<close>: the sentinel\<close>

text \<open>
  Claim C2, as stated, fails in the direction from the sentinel to the failed validation:
  the block below passes validation and carries the message 0x41 0x00; with that very
  string as sentinel, \<^verbatim>\<open>decrypt\<close> returns the sentinel value although the validation
  has not failed.
\<close>

theorem decrypt_sentinel_iff_counterexample:
  "length [0, 4, 2, 4, 6, 8, 10, 12, 14, 16, 0, 130, 0 :: byte] = modulus_bytes example_key
   \<and> decrypt_block example_key [0, 4, 2, 4, 6, 8, 10, 12, 14, 16, 0, 130, 0]
        = Inr [0, 2, 1, 2, 3, 4, 5, 6, 7, 8, 0, 0x41, 0]
   \<and> \<not> structurally_invalid [0, 2, 1, 2, 3, 4, 5, 6, 7, 8, 0, 0x41, 0]
   \<and> decrypt [0, 4, 2, 4, 6, 8, 10, 12, 14, 16, 0, 130, 0] example_key [0x41, 0]
        = Inr [0x41, 0]"
  by (simp add: decrypt_def example_key_bytes example_block py_find_eq py_startswith_def
        structurally_invalid_def separator_index_def)

text \<open>
  Claim C2, amended.  For a ciphertext of \<open>k\<close> bytes and a key with its private half,
  with \<open>em\<close> the re-encoded block: when \<open>em\<close> fails the structural validation,
  \<^verbatim>\<open>decrypt\<close> returns exactly the sentinel and raises nothing; \<^verbatim>\<open>decrypt\<close> returns the
  sentinel value exactly when the validation fails or the bytes after the separator are
  the sentinel themselves; a block that starts 0x00 0x03, and a block that starts
  0x00 0x02 0x00 (separator at index 2), give the sentinel.
\<close>

theorem decrypt_sentinel_on_invalid_block:
  assumes "length ct = modulus_bytes key" and "decrypt_block key ct = Inr em"
  shows "(structurally_invalid em \<longrightarrow> decrypt ct key sentinel = Inr sentinel)
       \<and> (decrypt ct key sentinel = Inr sentinel \<longleftrightarrow>
            structurally_invalid em
            \<or> (case separator_index em of
                 None \<Rightarrow> False
               | Some sep \<Rightarrow> drop (Suc sep) em = sentinel))
       \<and> (take 2 em = [0, 3] \<longrightarrow> decrypt ct key sentinel = Inr sentinel)
       \<and> (take 3 em = [0, 2, 0] \<longrightarrow> decrypt ct key sentinel = Inr sentinel)"
proof -
  have "structurally_invalid em" if "take 2 em = [0, 3]"
    using that by (simp add: structurally_invalid_def)
  moreover have "structurally_invalid em" if t: "take 3 em = [0, 2, 0]"
  proof -
    from t have "length (take 3 em) = 3" by simp
    then have len: "2 < length em" by simp
    from t len have "em ! 2 = 0"
      by (metis nth_take lessI numeral_3_eq_3 nth_Cons_0 nth_Cons_Suc numeral_2_eq_2)
    with len have "separator_index em = Some 2" by (auto simp: separator_index_Some_iff)
    then show ?thesis by (simp add: structurally_invalid_def)
  qed
  moreover have "structurally_invalid em" if "separator_index em = None"
    using that by (simp add: structurally_invalid_def)
  ultimately show ?thesis
    by (auto simp: decrypt_of_block[OF assms] split: option.splits)
qed

theorem decrypt_sentinel_on_invalid_block_witness:
  "length [0, 6, 2, 4, 6, 8, 10, 12, 14, 16, 0, 130, 0 :: byte] = modulus_bytes example_key
   \<and> decrypt_block example_key [0, 6, 2, 4, 6, 8, 10, 12, 14, 16, 0, 130, 0]
        = Inr [0, 3, 1, 2, 3, 4, 5, 6, 7, 8, 0, 0x41, 0]
   \<and> structurally_invalid [0, 3, 1, 2, 3, 4, 5, 6, 7, 8, 0, 0x41, 0]
   \<and> decrypt [0, 6, 2, 4, 6, 8, 10, 12, 14, 16, 0, 130, 0] example_key [7] = Inr [7]"
proof -
  have len: "length [0, 6, 2, 4, 6, 8, 10, 12, 14, 16, 0, 130, 0 :: byte]
               = modulus_bytes example_key"
    by (simp add: example_key_bytes)
  have inv: "structurally_invalid [0, 3, 1, 2, 3, 4, 5, 6, 7, 8, 0, 0x41, 0]"
    by (simp add: structurally_invalid_def)
  from decrypt_sentinel_on_invalid_block[OF len example_block_malformed, of "[7]"]
    len example_block_malformed inv
  show ?thesis by simp
qed

subsection \<open>\<^verbatim>\<open>decrypt\<close>: the re-encoded block and the message\<close>

text \<open>
  Claim C4.  For a ciphertext of \<open>k\<close> bytes and a key whose private transform returns a
  residue of the modulus, the block \<^verbatim>\<open>decrypt\<close> re-encodes is the transform's bytes
  left-padded with 0x00: it has exactly \<open>k\<close> bytes and its big-endian value is the
  transform's result.  When the block passes validation, \<^verbatim>\<open>decrypt\<close> returns every byte
  of it after index \<open>sep\<close>, the index of its first 0x00 byte at or after index 2.
\<close>

theorem decrypt_block_and_message:
  assumes "length ct = modulus_bytes key"
    and "private_transform key = Some priv"
    and "priv (bytes_to_long ct) < key_n key"
  shows "\<exists>em. decrypt_block key ct = Inr em
            \<and> em = replicate (modulus_bytes key - length (long_to_bytes (priv (bytes_to_long ct)))) 0
                     @ long_to_bytes (priv (bytes_to_long ct))
            \<and> length em = modulus_bytes key
            \<and> bytes_to_long em = priv (bytes_to_long ct)
            \<and> (\<not> structurally_invalid em \<longrightarrow>
                 (\<exists>sep. separator_index em = Some sep \<and> 10 \<le> sep
                     \<and> decrypt ct key sentinel = Inr (drop (Suc sep) em)))"
proof -
  let ?r = "priv (bytes_to_long ct)"
  let ?k = "modulus_bytes key"
  let ?em = "replicate (?k - length (long_to_bytes ?r)) 0 @ long_to_bytes ?r"
  have blk: "decrypt_block key ct = Inr ?em"
    using assms(2) by (simp add: decrypt_block_def key_decrypt_def)
  from assms(3) modulus_lt_pow[of key] have r: "?r < 256 ^ ?k" by simp
  have "0 < ?k"
  proof (rule ccontr)
    assume "\<not> 0 < ?k"
    with modulus_lt_pow[of key] assms(3) show False by simp
  qed
  with r have len: "length ?em = ?k" by (rule padded_length)
  have val: "bytes_to_long ?em = ?r" by (rule padded_value)
  have "\<exists>sep. separator_index ?em = Some sep \<and> 10 \<le> sep
           \<and> decrypt ct key sentinel = Inr (drop (Suc sep) ?em)"
    if ok: "\<not> structurally_invalid ?em"
  proof -
    from valid_block_separator[OF ok] obtain sep
      where sep: "separator_index ?em = Some sep" "10 \<le> sep" by blast
    with ok decrypt_of_block[OF assms(1) blk, of sentinel] show ?thesis by simp
  qed
  with blk len val show ?thesis by blast
qed

theorem decrypt_block_and_message_witness:
  "decrypt_block example_key [0, 0, 0, 0, 0, 0, 0, 0, 0, 0, 0, 0, 6]
     = Inr [0, 0, 0, 0, 0, 0, 0, 0, 0, 0, 0, 0, 3]
   \<and> length [0, 0, 0, 0, 0, 0, 0, 0, 0, 0, 0, 0, 3 :: byte] = modulus_bytes example_key
   \<and> bytes_to_long [0, 0, 0, 0, 0, 0, 0, 0, 0, 0, 0, 0, 3] = 3
   \<and> decrypt_block example_key [0, 4, 2, 4, 6, 8, 10, 12, 14, 16, 0, 130, 0]
       = Inr [0, 2, 1, 2, 3, 4, 5, 6, 7, 8, 0, 0x41, 0]
   \<and> separator_index [0, 2, 1, 2, 3, 4, 5, 6, 7, 8, 0, 0x41, 0] = Some 10
   \<and> decrypt [0, 4, 2, 4, 6, 8, 10, 12, 14, 16, 0, 130, 0] example_key [7] = Inr [0x41, 0]"
proof -
  let ?priv = "\<lambda>y::nat. (10141204801825835211973625643008 * y) mod 20282409603651670423947251286015"
  let ?ct1 = "[0, 0, 0, 0, 0, 0, 0, 0, 0, 0, 0, 0, 6 :: byte]"
  let ?ct2 = "[0, 4, 2, 4, 6, 8, 10, 12, 14, 16, 0, 130, 0 :: byte]"
  let ?em2 = "[0, 2, 1, 2, 3, 4, 5, 6, 7, 8, 0, 0x41, 0 :: byte]"
  have len1: "length ?ct1 = modulus_bytes example_key"
    and len2: "length ?ct2 = modulus_bytes example_key"
    by (simp_all add: example_key_bytes)
  have r1: "?priv (bytes_to_long ?ct1) = 3"
    by (simp add: bytes_to_long_def)
  then have lt1: "?priv (bytes_to_long ?ct1) < key_n example_key"
    by (simp add: example_key_def)
  have lt2: "?priv (bytes_to_long ?ct2) < key_n example_key"
    by (simp add: example_key_def)
  from decrypt_block_and_message[OF len1 example_key_private lt1, of "[7]"]
  obtain em1 where em1: "decrypt_block example_key ?ct1 = Inr em1"
    "length em1 = modulus_bytes example_key"
    "bytes_to_long em1 = ?priv (bytes_to_long ?ct1)"
    by blast
  note em1 = em1(1,2) em1(3)[unfolded r1]
  from em1(1) have e1: "em1 = [0, 0, 0, 0, 0, 0, 0, 0, 0, 0, 0, 0, 3]"
    by (simp add: example_block_short)
  from decrypt_block_and_message[OF len2 example_key_private lt2, of "[7]"]
  obtain em where em: "decrypt_block example_key ?ct2 = Inr em"
    "\<not> structurally_invalid em \<longrightarrow>
       (\<exists>sep. separator_index em = Some sep \<and> 10 \<le> sep
           \<and> decrypt ?ct2 example_key [7] = Inr (drop (Suc sep) em))"
    by blast
  from em(1) have e2: "em = ?em2" by (simp add: example_block)
  have sep: "separator_index ?em2 = Some 10" by (simp add: separator_index_def)
  then have "\<not> structurally_invalid ?em2" by (simp add: structurally_invalid_def)
  with em(2) sep have "decrypt ?ct2 example_key [7] = Inr [0x41, 0]"
    unfolding e2 by simp
  with em1 sep show ?thesis unfolding e1 by (simp add: example_block)
qed

subsection \<open>\<^verbatim>\<open>encrypt\<close>: the padding loop ends and the block is below the modulus\<close>

lemma nonZeroRandByte_done: "c \<noteq> [0] \<Longrightarrow> nonZeroRandByte rf c s = Some (c, s)"
  by (subst nonZeroRandByte.simps) simp

lemma nonZeroRandByte_redraw:
  "nonZeroRandByte rf [0] s = nonZeroRandByte rf (fst (rf s 1)) (snd (rf s 1))"
  by (subst nonZeroRandByte.simps) simp

lemma nonZeroRandByte_zero_ends:
  assumes len: "\<forall>s n. length (fst (rf s n)) = n"
  shows "redraw_ends rf s n \<Longrightarrow>
           \<exists>b s'. nonZeroRandByte rf [0] s = Some ([b], s') \<and> b \<noteq> 0"
proof (induction n arbitrary: s)
  case 0
  then show ?case by simp
next
  case (Suc n)
  from len have "length (fst (rf s 1)) = 1" by simp
  then obtain b where b: "fst (rf s 1) = [b]"
    by (cases "fst (rf s 1)") auto
  show ?case
  proof (cases "b = 0")
    case True
    with b Suc.prems have "redraw_ends rf (snd (rf s 1)) n" by simp
    from Suc.IH[OF this] show ?thesis
      using b True by (simp add: nonZeroRandByte_redraw)
  next
    case False
    with b show ?thesis
      by (simp add: nonZeroRandByte_redraw nonZeroRandByte_done)
  qed
qed

lemma nonZeroRandByte_ends:
  assumes "rng_contract rf"
  shows "\<exists>b' s'. nonZeroRandByte rf [b] s = Some ([b'], s') \<and> b' \<noteq> 0"
proof (cases "b = 0")
  case True
  from assms have "\<exists>n. redraw_ends rf s n" unfolding rng_contract_def by blast
  then obtain n where n: "redraw_ends rf s n" ..
  from assms have len: "\<forall>s n. length (fst (rf s n)) = n" by (simp add: rng_contract_def)
  from nonZeroRandByte_zero_ends[OF len n] True show ?thesis by simp
next
  case False
  then have "nonZeroRandByte rf [b] s = Some ([b], s)" by (simp add: nonZeroRandByte_done)
  with False show ?thesis by blast
qed

lemma map_nonZeroRandByte_ends:
  assumes "rng_contract rf"
  shows "\<exists>r s'. map_nonZeroRandByte rf cs s = Some (r, s')
           \<and> length (concat r) = length cs \<and> 0 \<notin> set (concat r)"
proof (induction cs arbitrary: s)
  case Nil
  show ?case by simp
next
  case (Cons c cs)
  from nonZeroRandByte_ends[OF assms, of c s] obtain b' s1
    where h: "nonZeroRandByte rf [c] s = Some ([b'], s1)" "b' \<noteq> 0" by blast
  from Cons.IH[of s1] obtain r s2
    where t: "map_nonZeroRandByte rf cs s1 = Some (r, s2)"
      "length (concat r) = length cs" "0 \<notin> set (concat r)" by blast
  from h t show ?case by simp
qed

lemma pkcs1_pad_ends:
  assumes "rng_contract rf"
  shows "\<exists>ps s'. pkcs1_pad message k rf s = Some ([0, 2] @ ps @ [0] @ message, s')
           \<and> length ps = k - length message - 3 \<and> 0 \<notin> set ps"
proof -
  obtain initial s0 where d: "rf s (k - length message - 3) = (initial, s0)"
    by (cases "rf s (k - length message - 3)")
  from assms have "length (fst (rf s (k - length message - 3))) = k - length message - 3"
    by (simp add: rng_contract_def)
  with d have li: "length initial = k - length message - 3" by simp
  from map_nonZeroRandByte_ends[OF assms, of initial s0] obtain r s1
    where m: "map_nonZeroRandByte rf initial s0 = Some (r, s1)"
      "length (concat r) = length initial" "0 \<notin> set (concat r)" by blast
  from d m li show ?thesis by (simp add: pkcs1_pad_def)
qed

lemma block_below_modulus:
  assumes "0 < key_n key" and "length em = modulus_bytes key" and "take 2 em = [0, 2]"
  shows "bytes_to_long em < key_n key"
proof -
  define rest where "rest = drop 2 em"
  have "take 2 em @ rest = em" unfolding rest_def by (rule append_take_drop_id)
  then have em: "em = 0 # 2 # rest" unfolding assms(3) by simp
  let ?p = "(256::nat) ^ length rest"
  have "length em = Suc (Suc (length rest))" by (subst em) simp
  with assms(2) have k1: "modulus_bytes key - 1 = Suc (length rest)" by simp
  have "bytes_to_long em = bytes_to_long (0 # 2 # rest)"
    using em by simp
  also have "\<dots> = 2 * ?p + bytes_to_long rest"
    by (simp add: bytes_to_long_Cons)
  also have "\<dots> < 3 * ?p" using bytes_to_long_bound[of rest] by simp
  also have "\<dots> \<le> 256 * ?p" by simp
  also have "\<dots> = 256 ^ (modulus_bytes key - 1)" unfolding k1 by simp
  also have "\<dots> \<le> key_n key" by (rule modulus_ge_pow[OF assms(1)])
  finally show ?thesis .
qed

lemma modulus_positive:
  assumes "0 < modulus_bytes key" shows "0 < key_n key"
proof (rule ccontr)
  assume "\<not> 0 < key_n key"
  then have "size_bits (key_n key) = 0" by (simp add: size_bits.simps)
  with assms show False by (simp add: modulus_bytes_def ceil_div_def)
qed

subsection \<open>The concrete random source and the validity of the concrete key\<close>

lemma queue_rng_redraw_ends: "redraw_ends queue_rng s (Suc (length s))"
proof (induction s)
  case Nil
  show ?case by (simp add: queue_rng_def)
next
  case (Cons a t)
  have "take 1 (a # t @ replicate 1 1) = [a]" by simp
  with Cons show ?case by (simp add: queue_rng_def)
qed

lemma queue_rng_contract: "rng_contract queue_rng"
  unfolding rng_contract_def
proof (intro conjI allI)
  fix s :: "byte list" and n
  show "length (fst (queue_rng s n)) = n" by (simp add: queue_rng_def)
  show "\<exists>n. redraw_ends queue_rng s n" using queue_rng_redraw_ends by blast
qed

lemma example_key_n: "key_n example_key = 20282409603651670423947251286015"
  by (simp add: example_key_def)

lemma example_key_public:
  "public_transform example_key = (\<lambda>x. (2 * x) mod 20282409603651670423947251286015)"
  by (simp add: example_key_def)

lemma example_key_inverse:
  "(10141204801825835211973625643008 * ((2 * x) mod 20282409603651670423947251286015))
      mod 20282409603651670423947251286015 = x mod (20282409603651670423947251286015::nat)"
proof -
  let ?n = "20282409603651670423947251286015::nat"
  let ?b = "10141204801825835211973625643008::nat"
  have "(?b * ((2 * x) mod ?n)) mod ?n = (?b * (2 * x)) mod ?n"
    by (rule mod_mult_right_eq)
  also have "\<dots> = ((?b * 2) * x) mod ?n" by (simp only: mult.assoc)
  also have "\<dots> = (((?b * 2) mod ?n) * x) mod ?n" by (simp only: mod_mult_left_eq)
  also have "(?b * 2) mod ?n = 1" by simp
  finally show ?thesis by simp
qed

lemma example_key_valid:
  "\<forall>x<key_n example_key.
      public_transform example_key x < key_n example_key
      \<and> (\<lambda>y. (10141204801825835211973625643008 * y) mod 20282409603651670423947251286015)
           (public_transform example_key x) = x"
  by (simp add: example_key_n example_key_public example_key_inverse)

subsection \<open>\<^verbatim>\<open>encrypt\<close>: the length check\<close>

text \<open>
  Claim C5.  \<^verbatim>\<open>encrypt\<close> fails with the error for a message that is too long exactly
  when \<open>len(message) > k - 11\<close>, whatever the random source does; it then leaves the
  random source untouched.  In particular a message of \<open>k - 10\<close> bytes fails, and no
  message within the limit gives this error.
\<close>

theorem encrypt_message_too_long_iff:
  "(map_option fst (encrypt message key rf s) = Some (Inl MessageTooLong)
      \<longleftrightarrow> int (modulus_bytes key) - 11 < int (length message))
   \<and> (int (modulus_bytes key) - 11 < int (length message) \<longrightarrow>
        encrypt message key rf s = Some (Inl MessageTooLong, s))
   \<and> (int (length message) = int (modulus_bytes key) - 10 \<longrightarrow>
        encrypt message key rf s = Some (Inl MessageTooLong, s))"
  by (auto simp: encrypt_def Let_def split: option.splits prod.splits)

theorem encrypt_message_too_long_iff_witness:
  "int (length [1, 2, 3 :: byte]) = int (modulus_bytes example_key) - 10
   \<and> encrypt [1, 2, 3] example_key queue_rng [] = Some (Inl MessageTooLong, [])"
  using encrypt_message_too_long_iff[of "[1, 2, 3]" example_key queue_rng "[]"]
  by (simp add: example_key_bytes)

subsection \<open>\<^verbatim>\<open>encrypt\<close>: the encoded block and the ciphertext\<close>

lemma example_pad:
  "pkcs1_pad [0x41, 0] 13 queue_rng [0, 5, 0, 0, 7, 1, 1, 1, 0, 9, 0, 0, 3, 4]
     = Some ([0, 2, 9, 5, 3, 4, 7, 1, 1, 1, 0, 0x41, 0], [])"
  by (simp add: pkcs1_pad_def queue_rng_def nonZeroRandByte_redraw nonZeroRandByte_done)

lemma example_encrypt:
  "encrypt [0x41, 0] example_key queue_rng [0, 5, 0, 0, 7, 1, 1, 1, 0, 9, 0, 0, 3, 4]
     = Some (Inr [0, 4, 0x12, 0x0a, 6, 8, 0x0e, 2, 2, 2, 0, 0x82, 0], [])"
  by (simp add: encrypt_def example_key_bytes example_pad key_encrypt_def example_key_public
        bytes_to_long_def long_to_bytes_def le_bytes_0 le_bytes_numeral)

lemma encrypt_of_block:
  assumes "int (length message) \<le> int (modulus_bytes key) - 11"
    and "pkcs1_pad message (modulus_bytes key) rf s = Some (em, s')"
  shows "encrypt message key rf s =
           Some (Inr (replicate (modulus_bytes key - length (key_encrypt key em)) 0
                        @ key_encrypt key em), s')"
  using assms by (simp add: encrypt_def Let_def)

text \<open>
  Claim C3.  For a message within the limit and a random source that meets its contract,
  the block that \<^verbatim>\<open>encrypt\<close> builds and hands to the public transform is
  0x00, 0x02, a string \<open>ps\<close> of exactly \<open>k - mLen - 3\<close> bytes none of which is 0x00,
  one 0x00, then the message: \<open>k\<close> bytes in all.
\<close>

theorem encrypt_block_layout:
  assumes "rng_contract rf"
    and "int (length message) \<le> int (modulus_bytes key) - 11"
  shows "\<exists>ps s'.
           pkcs1_pad message (modulus_bytes key) rf s = Some ([0, 2] @ ps @ [0] @ message, s')
           \<and> length ps = modulus_bytes key - length message - 3
           \<and> 0 \<notin> set ps
           \<and> length ([0, 2] @ ps @ [0] @ message) = modulus_bytes key
           \<and> encrypt message key rf s =
               Some (Inr (replicate
                            (modulus_bytes key
                               - length (long_to_bytes (public_transform key
                                    (bytes_to_long ([0, 2] @ ps @ [0] @ message))))) 0
                          @ long_to_bytes (public_transform key
                              (bytes_to_long ([0, 2] @ ps @ [0] @ message)))), s')"
proof -
  from pkcs1_pad_ends[OF assms(1), of message "modulus_bytes key" s] obtain ps s'
    where p: "pkcs1_pad message (modulus_bytes key) rf s = Some ([0, 2] @ ps @ [0] @ message, s')"
      "length ps = modulus_bytes key - length message - 3" "0 \<notin> set ps" by blast
  from p(2) assms(2) have len: "length ([0, 2] @ ps @ [0] @ message) = modulus_bytes key"
    by simp
  from encrypt_of_block[OF assms(2) p(1)] p(1,2,3) len show ?thesis
    unfolding key_encrypt_def by blast
qed

theorem encrypt_block_layout_witness:
  "pkcs1_pad [0x41, 0] (modulus_bytes example_key) queue_rng
      [0, 5, 0, 0, 7, 1, 1, 1, 0, 9, 0, 0, 3, 4]
     = Some ([0, 2] @ [9, 5, 3, 4, 7, 1, 1, 1] @ [0] @ [0x41, 0], [])
   \<and> length [9, 5, 3, 4, 7, 1, 1, 1 :: byte] = modulus_bytes example_key - length [0x41, 0 :: byte] - 3
   \<and> 0 \<notin> set [9, 5, 3, 4, 7, 1, 1, 1 :: byte]"
proof -
  have "int (length [0x41, 0 :: byte]) \<le> int (modulus_bytes example_key) - 11"
    by (simp add: example_key_bytes)
  from encrypt_block_layout[OF queue_rng_contract this,
      of "[0, 5, 0, 0, 7, 1, 1, 1, 0, 9, 0, 0, 3, 4]"]
  show ?thesis by (auto simp: example_key_bytes example_pad)
qed

lemma pkcs1_pad_prefix:
  assumes "rng_contract rf"
    and "int (length message) \<le> int k - 11"
  shows "\<exists>ps s'. pkcs1_pad message k rf s = Some (0 # 2 # ps @ 0 # message, s')
           \<and> length (0 # 2 # ps @ 0 # message) = k \<and> 8 \<le> length ps \<and> 0 \<notin> set ps"
proof -
  from pkcs1_pad_ends[OF assms(1), of message k s] obtain ps s'
    where p: "pkcs1_pad message k rf s = Some ([0, 2] @ ps @ [0] @ message, s')"
      "length ps = k - length message - 3" "0 \<notin> set ps" by blast
  with assms(2) show ?thesis by auto
qed

text \<open>
  Claim C7.  For a message within the limit, a random source that meets its contract and
  a public transform that returns residues of the modulus, \<^verbatim>\<open>encrypt\<close> returns the
  bytes of the transform's result left-padded with 0x00: exactly \<open>k\<close> bytes whose
  big-endian value is the result of the public transform on the encoded block.
\<close>

theorem encrypt_ciphertext_length:
  assumes "rng_contract rf"
    and "int (length message) \<le> int (modulus_bytes key) - 11"
    and "\<forall>x<key_n key. public_transform key x < key_n key"
  shows "\<exists>em ct s'.
           pkcs1_pad message (modulus_bytes key) rf s = Some (em, s')
           \<and> encrypt message key rf s = Some (Inr ct, s')
           \<and> ct = replicate (modulus_bytes key
                      - length (long_to_bytes (public_transform key (bytes_to_long em)))) 0
                    @ long_to_bytes (public_transform key (bytes_to_long em))
           \<and> length ct = modulus_bytes key
           \<and> bytes_to_long ct = public_transform key (bytes_to_long em)"
proof -
  let ?k = "modulus_bytes key"
  from pkcs1_pad_prefix[OF assms(1,2), of s] obtain ps s'
    where p: "pkcs1_pad message ?k rf s = Some (0 # 2 # ps @ 0 # message, s')"
      "length (0 # 2 # ps @ 0 # message) = ?k" by blast
  let ?em = "0 # 2 # ps @ 0 # message"
  let ?y = "public_transform key (bytes_to_long ?em)"
  let ?ct = "replicate (?k - length (long_to_bytes ?y)) 0 @ long_to_bytes ?y"
  from assms(2) have kpos: "0 < ?k" by simp
  then have npos: "0 < key_n key" by (rule modulus_positive)
  have "take 2 ?em = [0, 2]" by (simp add: numeral_2_eq_2)
  with npos p(2) have "bytes_to_long ?em < key_n key" by (rule block_below_modulus)
  with assms(3) have "?y < key_n key" by blast
  with modulus_lt_pow[of key] have y: "?y < 256 ^ ?k" by simp
  from y kpos have len: "length ?ct = ?k" by (rule padded_length)
  have val: "bytes_to_long ?ct = ?y" by (rule padded_value)
  from encrypt_of_block[OF assms(2) p(1)]
  have "encrypt message key rf s = Some (Inr ?ct, s')" by (simp add: key_encrypt_def)
  with p(1) len val show ?thesis by blast
qed

theorem encrypt_ciphertext_length_witness:
  "encrypt [0x41, 0] example_key queue_rng [0, 5, 0, 0, 7, 1, 1, 1, 0, 9, 0, 0, 3, 4]
     = Some (Inr [0, 4, 0x12, 0x0a, 6, 8, 0x0e, 2, 2, 2, 0, 0x82, 0], [])
   \<and> length [0, 4, 0x12, 0x0a, 6, 8, 0x0e, 2, 2, 2, 0, 0x82, 0 :: byte]
       = modulus_bytes example_key
   \<and> bytes_to_long [0, 4, 0x12, 0x0a, 6, 8, 0x0e, 2, 2, 2, 0, 0x82, 0]
       = public_transform example_key (bytes_to_long [0, 2, 9, 5, 3, 4, 7, 1, 1, 1, 0, 0x41, 0])"
proof -
  have l: "int (length [0x41, 0 :: byte]) \<le> int (modulus_bytes example_key) - 11"
    by (simp add: example_key_bytes)
  have r: "\<forall>x<key_n example_key. public_transform example_key x < key_n example_key"
    using example_key_valid by blast
  from encrypt_ciphertext_length[OF queue_rng_contract l r,
      of "[0, 5, 0, 0, 7, 1, 1, 1, 0, 9, 0, 0, 3, 4]"]
  obtain em ct s' where
    h: "pkcs1_pad [0x41, 0] (modulus_bytes example_key) queue_rng
          [0, 5, 0, 0, 7, 1, 1, 1, 0, 9, 0, 0, 3, 4] = Some (em, s')"
      "encrypt [0x41, 0] example_key queue_rng [0, 5, 0, 0, 7, 1, 1, 1, 0, 9, 0, 0, 3, 4]
         = Some (Inr ct, s')"
      "length ct = modulus_bytes example_key"
      "bytes_to_long ct = public_transform example_key (bytes_to_long em)"
    by blast
  from h(1) have em: "em = [0, 2, 9, 5, 3, 4, 7, 1, 1, 1, 0, 0x41, 0]"
    by (simp add: example_key_bytes example_pad)
  from h(2) have ct: "ct = [0, 4, 0x12, 0x0a, 6, 8, 0x0e, 2, 2, 2, 0, 0x82, 0]"
    by (simp add: example_encrypt)
  from h(3,4) show ?thesis unfolding em ct by (simp add: example_encrypt)
qed

subsection \<open>Round trip\<close>

lemma separator_of_padded_block:
  assumes "0 \<notin> set ps"
  shows "separator_index (0 # 2 # ps @ 0 # message) = Some (Suc (Suc (length ps)))"
proof -
  let ?em = "0 # 2 # ps @ 0 # message"
  have at: "?em ! Suc (Suc (length ps)) = 0" by simp
  have before: "?em ! j \<noteq> 0" if "2 \<le> j" "j < Suc (Suc (length ps))" for j
  proof -
    from that obtain i where j: "j = Suc (Suc i)" "i < length ps"
      by (cases j; cases "j - 1") auto
    then have "?em ! j = ps ! i" by (simp add: nth_append)
    with j(2) assms show ?thesis by (metis nth_mem)
  qed
  show ?thesis
    unfolding separator_index_Some_iff using at before by simp
qed

lemma padded_block_valid:
  assumes "0 \<notin> set ps" and "8 \<le> length ps"
  shows "\<not> structurally_invalid (0 # 2 # ps @ 0 # message)"
  using assms
  by (simp add: structurally_invalid_def separator_of_padded_block numeral_2_eq_2)

text \<open>
  Claim C1.  For a key with both halves whose public transform maps residues of the
  modulus to residues and whose private transform inverts it there, a message of at most
  \<open>k - 11\<close> bytes (empty or with 0x00 bytes in it as well) and a random source that
  meets its contract: \<^verbatim>\<open>encrypt\<close> returns a ciphertext, and \<^verbatim>\<open>decrypt\<close> of that
  ciphertext returns exactly the message, for every sentinel.
\<close>

theorem encrypt_decrypt_round_trip:
  assumes "rng_contract rf"
    and "int (length message) \<le> int (modulus_bytes key) - 11"
    and "private_transform key = Some priv"
    and "\<forall>x<key_n key. public_transform key x < key_n key \<and> priv (public_transform key x) = x"
  shows "\<exists>ct s'. encrypt message key rf s = Some (Inr ct, s')
            \<and> (\<forall>sentinel. decrypt ct key sentinel = Inr message)"
proof -
  let ?k = "modulus_bytes key"
  from pkcs1_pad_prefix[OF assms(1,2), of s] obtain ps s'
    where p: "pkcs1_pad message ?k rf s = Some (0 # 2 # ps @ 0 # message, s')"
      "length (0 # 2 # ps @ 0 # message) = ?k" "8 \<le> length ps" "0 \<notin> set ps" by blast
  define em where "em = 0 # 2 # ps @ 0 # message"
  let ?x = "bytes_to_long em"
  let ?y = "public_transform key ?x"
  define ct where "ct = replicate (?k - length (long_to_bytes ?y)) 0 @ long_to_bytes ?y"
  have em_len: "length em = ?k" using p(2) by (simp add: em_def)
  have em_ne: "em \<noteq> []" by (simp add: em_def)
  from assms(2) have kpos: "0 < ?k" by simp
  then have npos: "0 < key_n key" by (rule modulus_positive)
  have "take 2 em = [0, 2]" by (simp add: em_def numeral_2_eq_2)
  with npos em_len have x: "?x < key_n key" by (rule block_below_modulus)
  with assms(4) have y: "?y < key_n key" and inv: "priv ?y = ?x" by blast+
  from y modulus_lt_pow[of key] have "?y < 256 ^ ?k" by simp
  then have ct_len: "length ct = ?k" unfolding ct_def using kpos by (rule padded_length)
  have ct_val: "bytes_to_long ct = ?y" unfolding ct_def by (rule padded_value)
  have enc: "encrypt message key rf s = Some (Inr ct, s')"
    using encrypt_of_block[OF assms(2) p(1)] by (simp add: key_encrypt_def ct_def em_def)
  have "decrypt_block key ct =
          Inr (replicate (?k - length (long_to_bytes ?x)) 0 @ long_to_bytes ?x)"
    using assms(3) by (simp add: decrypt_block_def key_decrypt_def ct_val inv)
  also have "replicate (?k - length (long_to_bytes ?x)) 0 @ long_to_bytes ?x = em"
    using padded_bytes_to_long[OF em_ne] by (simp add: em_len)
  finally have blk: "decrypt_block key ct = Inr em" .
  have valid: "\<not> structurally_invalid em"
    unfolding em_def using p(4,3) by (rule padded_block_valid)
  have sep: "separator_index em = Some (Suc (Suc (length ps)))"
    unfolding em_def using p(4) by (rule separator_of_padded_block)
  have "drop (Suc (Suc (Suc (length ps)))) em = message" by (simp add: em_def)
  with valid sep have "decrypt ct key sentinel = Inr message" for sentinel
    by (simp add: decrypt_of_block[OF ct_len blk])
  with enc show ?thesis by blast
qed

theorem encrypt_decrypt_round_trip_witness:
  "encrypt [0x41, 0] example_key queue_rng [0, 5, 0, 0, 7, 1, 1, 1, 0, 9, 0, 0, 3, 4]
     = Some (Inr [0, 4, 0x12, 0x0a, 6, 8, 0x0e, 2, 2, 2, 0, 0x82, 0], [])
   \<and> decrypt [0, 4, 0x12, 0x0a, 6, 8, 0x0e, 2, 2, 2, 0, 0x82, 0] example_key [7]
       = Inr [0x41, 0]"
proof -
  have l: "int (length [0x41, 0 :: byte]) \<le> int (modulus_bytes example_key) - 11"
    by (simp add: example_key_bytes)
  from encrypt_decrypt_round_trip[OF queue_rng_contract l example_key_private example_key_valid,
      of "[0, 5, 0, 0, 7, 1, 1, 1, 0, 9, 0, 0, 3, 4]"]
  show ?thesis by (auto simp: example_encrypt)
qed

end
